theory Spec2Isabelle
  imports Complex_Main
begin

section \<open>DrumKitz: peak detection and slicing (src/utils/audioProcessing.ts)\<close>

text \<open>
  Numbers. A JavaScript \<open>number\<close> that holds a sample or an RMS value is either a real
  value or \<open>NaN\<close>. \<open>NaN\<close> is kept, because the code produces it (the division \<open>0 / 0\<close>
  of an empty RMS window, and a typed-array element written from an out-of-range read) and
  because every comparison with it is false. The infinities are not modelled.

  Rounding. Inside \<open>calculateRMS\<close> the sum, the quotient and the root are exact reals. The
  results that the program hands out as doubles are rounded with \<open>double\<close> below: the seconds
  \<open>index / sampleRate\<close> of a segment, and the difference and the products from which
  \<open>sliceAudio\<close> takes its sample indices.
\<close>

datatype number = NaN | Num real

fun mul :: "number \<Rightarrow> number \<Rightarrow> number" where
  "mul (Num x) (Num y) = Num (x * y)"
| "mul _ _ = NaN"

fun add :: "number \<Rightarrow> number \<Rightarrow> number" where
  "add (Num x) (Num y) = Num (x + y)"
| "add _ _ = NaN"

text \<open>
  \<open>sum / (end - start)\<close>: the divisor is an integer difference. A zero divisor is reached
  with \<open>sum = 0\<close> only (the loop has not run), and \<open>0 / 0\<close> is \<open>NaN\<close>.
\<close>

fun divide_by :: "number \<Rightarrow> int \<Rightarrow> number" where
  "divide_by (Num x) d = (if d = 0 then NaN else Num (x / real_of_int d))"
| "divide_by NaN d = NaN"

fun Math_sqrt :: "number \<Rightarrow> number" where
  "Math_sqrt (Num x) = (if x < 0 then NaN else Num (sqrt x))"
| "Math_sqrt NaN = NaN"

text \<open>
  IEEE 754 binary64, round to nearest, ties to even: \<open>rne\<close> rounds a real to an integer,
  \<open>ulp x\<close> is the spacing of the doubles in the binade of \<open>x\<close> (53 significant bits), and
  \<open>double x\<close> is the double nearest to \<open>x\<close>. The exponent range is not bounded (no overflow
  to infinity, no subnormal numbers): the values rounded here are sample indices divided or
  multiplied by a sample rate, well inside the normal range.
\<close>

definition rne :: "real \<Rightarrow> int" where
  "rne x =
     (let f = \<lfloor>x\<rfloor>; r = x - real_of_int f
      in if r < 1 / 2 then f else if 1 / 2 < r then f + 1 else if even f then f else f + 1)"

definition ulp :: "real \<Rightarrow> real" where
  "ulp x = 2 powr real_of_int (\<lfloor>log 2 \<bar>x\<bar>\<rfloor> - 52)"

definition double :: "real \<Rightarrow> real" where
  "double x = (if x = 0 then 0 else sgn x * (ulp x * real_of_int (rne (\<bar>x\<bar> / ulp x))))"

text \<open>Reading a \<open>Float32Array\<close>: an index out of range gives \<open>undefined\<close>, which is
  \<open>NaN\<close> in arithmetic and when stored into another \<open>Float32Array\<close>.\<close>

definition rd :: "number list \<Rightarrow> int \<Rightarrow> number" where
  "rd data i = (if 0 \<le> i \<and> i < int (length data) then data ! nat i else NaN)"

subsection \<open>Audio buffers\<close>

text \<open>The Web Audio \<open>AudioBuffer\<close>: a sample rate (an integer number of samples per
  second) and one \<open>Float32Array\<close> per channel.\<close>

record AudioBuffer =
  sampleRate :: nat
  channels :: "number list list"

datatype error = IndexSizeError | NotSupportedError | RangeError

definition numberOfChannels :: "AudioBuffer \<Rightarrow> nat" where
  "numberOfChannels ab = length (channels ab)"

text \<open>\<open>getChannelData\<close> throws \<open>IndexSizeError\<close> for a channel the buffer does not have.\<close>

definition getChannelData :: "AudioBuffer \<Rightarrow> nat \<Rightarrow> error + number list" where
  "getChannelData ab c =
     (if c < numberOfChannels ab then Inr (channels ab ! c) else Inl IndexSizeError)"

subsection \<open>calculateRMS\<close>

text \<open>The loop \<open>for (let i = start; i < end; i++) sum += data[i] * data[i]\<close>; the
  accumulator \<open>acc\<close> is the source's \<open>sum\<close>.\<close>

function sumSquares :: "number list \<Rightarrow> nat \<Rightarrow> nat \<Rightarrow> number \<Rightarrow> number" where
  "sumSquares data i e acc =
     (if i < e then sumSquares data (Suc i) e (add acc (mul (rd data (int i)) (rd data (int i))))
      else acc)"
  by pat_completeness auto
termination
  by (relation "measure (\<lambda>(data, i, e, acc). e - i)") auto

declare sumSquares.simps [simp del]

definition calculateRMS :: "number list \<Rightarrow> nat \<Rightarrow> nat \<Rightarrow> number" where
  "calculateRMS data start length' =
     (let e = min (start + length') (length data);
          acc = sumSquares data start e (Num 0)
      in Math_sqrt (divide_by acc (int e - int start)))"

subsection \<open>sliceAudio\<close>

text \<open>
  \<open>BaseAudioContext.createBuffer\<close> belongs to the platform, not to the repository. It is
  modelled after the Web Audio API: a \<open>NotSupportedError\<close> when the number of channels,
  the length or the sample rate is not positive, else a buffer of silence. (The upper limits
  of an implementation are left out.)
\<close>

definition createBuffer :: "nat \<Rightarrow> int \<Rightarrow> nat \<Rightarrow> error + AudioBuffer" where
  "createBuffer n len sr =
     (if n = 0 \<or> len \<le> 0 \<or> sr = 0 then Inl NotSupportedError
      else Inr \<lparr>sampleRate = sr, channels = replicate n (replicate (nat len) (Num 0))\<rparr>)"

text \<open>The inner loop \<open>newChannelData[i] = channelData[sampleStart + i]\<close>. A write into
  a \<open>Float32Array\<close> stores \<open>undefined\<close> as \<open>NaN\<close>.\<close>

function copySamples :: "number list \<Rightarrow> int \<Rightarrow> int \<Rightarrow> nat \<Rightarrow> number list \<Rightarrow> number list" where
  "copySamples channelData sampleStart sampleDuration i newChannelData =
     (if int i < sampleDuration
      then copySamples channelData sampleStart sampleDuration (Suc i)
             (newChannelData[i := rd channelData (sampleStart + int i)])
      else newChannelData)"
  by pat_completeness auto
termination
  by (relation "measure (\<lambda>(cd, sampleStart, sampleDuration, i, ncd). nat sampleDuration - i)") auto

declare copySamples.simps [simp del]

text \<open>The outer loop over the channels; \<open>newChannelData\<close> is the channel's array inside
  \<open>newBuffer\<close>, so writing it changes \<open>newBuffer\<close>.\<close>

function copyChannels :: "AudioBuffer \<Rightarrow> int \<Rightarrow> int \<Rightarrow> nat \<Rightarrow> AudioBuffer \<Rightarrow> error + AudioBuffer" where
  "copyChannels audioBuffer sampleStart sampleDuration channel newBuffer =
     (if channel < numberOfChannels audioBuffer
      then (case getChannelData audioBuffer channel of
              Inl e \<Rightarrow> Inl e
            | Inr channelData \<Rightarrow>
                (case getChannelData newBuffer channel of
                   Inl e \<Rightarrow> Inl e
                 | Inr newChannelData \<Rightarrow>
                     copyChannels audioBuffer sampleStart sampleDuration (Suc channel)
                       (newBuffer\<lparr>channels := (channels newBuffer)
                          [channel := copySamples channelData sampleStart sampleDuration 0
                                        newChannelData]\<rparr>)))
      else Inr newBuffer)"
  by pat_completeness auto
termination
  by (relation "measure (\<lambda>(ab, sampleStart, sampleDuration, channel, nb).
                  numberOfChannels ab - channel)") auto

declare copyChannels.simps [simp del]

text \<open>\<open>start\<close> and \<open>end\<close> are doubles, in seconds; the difference and the two products
  are rounded before \<open>Math.floor\<close>.\<close>

definition sliceAudio :: "AudioBuffer \<Rightarrow> real \<Rightarrow> real \<Rightarrow> error + AudioBuffer" where
  "sliceAudio audioBuffer start end' =
     (let duration = double (end' - start);
          sampleStart = \<lfloor>double (start * real (sampleRate audioBuffer))\<rfloor>;
          sampleDuration = \<lfloor>double (duration * real (sampleRate audioBuffer))\<rfloor>
      in case createBuffer (numberOfChannels audioBuffer) sampleDuration (sampleRate audioBuffer) of
           Inl e \<Rightarrow> Inl e
         | Inr newBuffer \<Rightarrow> copyChannels audioBuffer sampleStart sampleDuration 0 newBuffer)"

subsection \<open>Peaks\<close>

text \<open>The interface \<open>Peak\<close>; the field \<open>end'\<close> is the source's \<open>end\<close>, in seconds like
  \<open>start\<close>.\<close>

record Peak =
  start :: real
  end' :: real
  amplitude :: real

subsection \<open>Constants for peak detection\<close>

definition MIN_PEAK_DISTANCE :: real where "MIN_PEAK_DISTANCE = 5 / 100"
definition PRE_PEAK_BUFFER :: real where "PRE_PEAK_BUFFER = 25 / 1000"
definition POST_PEAK_BUFFER :: real where "POST_PEAK_BUFFER = 5 / 100"
definition MIN_SEGMENT_DURATION :: real where "MIN_SEGMENT_DURATION = 5 / 100"
definition MAX_SEGMENT_DURATION :: real where "MAX_SEGMENT_DURATION = 2 / 10"

text \<open>\<open>Math.floor(c * sampleRate)\<close>, the time-based constants in samples. The product is
  taken exactly. (The doubles nearest to 0.05, 0.025, 0.2 and 0.005 lie just above these
  decimals, by less than one part in \<open>2^53\<close>, so for a sample rate that is an integer the
  floor of the rounded product is the floor of the exact one.)\<close>

definition minPeakDistanceSamples :: "nat \<Rightarrow> int" where
  "minPeakDistanceSamples sr = \<lfloor>MIN_PEAK_DISTANCE * real sr\<rfloor>"
definition prePeakBufferSamples :: "nat \<Rightarrow> int" where
  "prePeakBufferSamples sr = \<lfloor>PRE_PEAK_BUFFER * real sr\<rfloor>"
definition postPeakBufferSamples :: "nat \<Rightarrow> int" where
  "postPeakBufferSamples sr = \<lfloor>POST_PEAK_BUFFER * real sr\<rfloor>"
definition minSegmentSamples :: "nat \<Rightarrow> int" where
  "minSegmentSamples sr = \<lfloor>MIN_SEGMENT_DURATION * real sr\<rfloor>"
definition maxSegmentSamples :: "nat \<Rightarrow> int" where
  "maxSegmentSamples sr = \<lfloor>MAX_SEGMENT_DURATION * real sr\<rfloor>"
definition rmsWindowSize :: "nat \<Rightarrow> nat" where
  "rmsWindowSize sr = nat \<lfloor>(5 / 1000) * real sr\<rfloor>"

subsection \<open>detectPeaks\<close>

text \<open>The local variables of \<open>detectPeaks\<close> that the loop updates. \<open>maxAmplitude\<close> is only
  ever assigned under the guard \<open>rms > threshold\<close>, which is false for \<open>NaN\<close>, so it holds a
  real value.\<close>

record dstate =
  peaks :: "Peak list"
  lastPeakIndex :: int
  isInPeak :: bool
  peakStartIndex :: int
  maxAmplitude :: real

definition init :: "nat \<Rightarrow> dstate" where
  "init sr = \<lparr>peaks = [], lastPeakIndex = - minPeakDistanceSamples sr, isInPeak = False,
              peakStartIndex = 0, maxAmplitude = 0\<rparr>"

text \<open>The end of a peak (third branch of the loop body), with \<open>isInPeak\<close> already cleared;
  \<open>e0\<close>, \<open>e1\<close> and \<open>e2\<close> are the successive values of \<open>peakEndIndex\<close>.\<close>

definition closePeak :: "number list \<Rightarrow> nat \<Rightarrow> nat \<Rightarrow> dstate \<Rightarrow> dstate" where
  "closePeak data sr i st =
     (let e0 = min (int i + postPeakBufferSamples sr) (int (length data));
          e1 = (if e0 - peakStartIndex st < minSegmentSamples sr
                then peakStartIndex st + minSegmentSamples sr else e0);
          e2 = (if e1 - peakStartIndex st > maxSegmentSamples sr
                then peakStartIndex st + maxSegmentSamples sr else e1)
      in if e2 - peakStartIndex st \<ge> minSegmentSamples sr
         then st\<lparr>peaks := peaks st @
                    [\<lparr>start = double (real_of_int (peakStartIndex st) / real sr),
                      end' = double (real_of_int e2 / real sr),
                      amplitude = maxAmplitude st\<rparr>],
                 lastPeakIndex := e2\<rparr>
         else st)"

text \<open>One iteration of the loop. With \<open>rms = NaN\<close> all three conditions are false.\<close>

definition step :: "number list \<Rightarrow> nat \<Rightarrow> real \<Rightarrow> nat \<Rightarrow> dstate \<Rightarrow> dstate" where
  "step data sr threshold i st =
     (case calculateRMS data i (rmsWindowSize sr) of
        NaN \<Rightarrow> st
      | Num rms \<Rightarrow>
          if rms > threshold \<and> \<not> isInPeak st
             \<and> int i - lastPeakIndex st \<ge> minPeakDistanceSamples sr
          then st\<lparr>isInPeak := True,
                  peakStartIndex := max (int i - prePeakBufferSamples sr)
                                        (lastPeakIndex st + minPeakDistanceSamples sr),
                  maxAmplitude := rms\<rparr>
          else if rms > threshold \<and> isInPeak st
          then st\<lparr>maxAmplitude := max (maxAmplitude st) rms\<rparr>
          else if rms \<le> threshold \<and> isInPeak st
          then closePeak data sr i (st\<lparr>isInPeak := False\<rparr>)
          else st)"

text \<open>\<open>for (let i = 0; i < data.length; i++)\<close>.\<close>

function loop :: "number list \<Rightarrow> nat \<Rightarrow> real \<Rightarrow> nat \<Rightarrow> dstate \<Rightarrow> dstate" where
  "loop data sr threshold i st =
     (if i < length data then loop data sr threshold (Suc i) (step data sr threshold i st)
      else st)"
  by pat_completeness auto
termination
  by (relation "measure (\<lambda>(data, sr, threshold, i, st). length data - i)") auto

declare loop.simps [simp del]

text \<open>The case where a peak is still open at the end of the file.\<close>

definition flush :: "number list \<Rightarrow> nat \<Rightarrow> dstate \<Rightarrow> Peak list" where
  "flush data sr st =
     (if isInPeak st
      then (let peakEndIndex = min (int (length data)) (peakStartIndex st + maxSegmentSamples sr)
            in if peakEndIndex - peakStartIndex st \<ge> minSegmentSamples sr
               then peaks st @
                      [\<lparr>start = double (real_of_int (peakStartIndex st) / real sr),
                        end' = double (real_of_int peakEndIndex / real sr),
                        amplitude = maxAmplitude st\<rparr>]
               else peaks st)
      else peaks st)"

definition detectPeaks :: "AudioBuffer \<Rightarrow> real \<Rightarrow> error + Peak list" where
  "detectPeaks audioBuffer threshold =
     (case getChannelData audioBuffer 0 of
        Inl e \<Rightarrow> Inl e
      | Inr data \<Rightarrow>
          Inr (flush data (sampleRate audioBuffer)
                 (loop data (sampleRate audioBuffer) threshold 0 (init (sampleRate audioBuffer)))))"

subsection \<open>Invariants of the detection loop\<close>

text \<open>
  The seconds of a segment are rounded, so the invariants speak of the sample indices they
  come from. A segment is well formed when its start and end are the doubles of \<open>s / sr\<close> and
  \<open>e / sr\<close> for indices whose distance lies between the minimum and the maximum sample count,
  and its amplitude is above the threshold. In a well-spaced list each segment ends at an
  index at least \<open>minPeakDistanceSamples\<close> before the index at which the next one starts.
\<close>

definition seg_ok :: "nat \<Rightarrow> real \<Rightarrow> Peak \<Rightarrow> bool" where
  "seg_ok sr th p =
     ((\<exists>s e. start p = double (real_of_int s / real sr)
            \<and> end' p = double (real_of_int e / real sr)
            \<and> minSegmentSamples sr \<le> e - s \<and> e - s \<le> maxSegmentSamples sr)
      \<and> th < amplitude p)"

fun gapped :: "nat \<Rightarrow> Peak list \<Rightarrow> bool" where
  "gapped sr (p # q # ps) =
     ((\<exists>e s. end' p = double (real_of_int e / real sr)
             \<and> start q = double (real_of_int s / real sr)
             \<and> e + minPeakDistanceSamples sr \<le> s)
      \<and> gapped sr (q # ps))"
| "gapped sr ps = True"

definition segs_ok :: "nat \<Rightarrow> real \<Rightarrow> Peak list \<Rightarrow> bool" where
  "segs_ok sr th ps = (gapped sr ps \<and> (\<forall>p \<in> set ps. seg_ok sr th p))"

text \<open>The invariant of the loop: \<open>lastPeakIndex\<close> is the end index of the last segment
  pushed, and an open peak starts at least \<open>minPeakDistanceSamples\<close> after it, with a maximum
  amplitude above the threshold.\<close>

definition detector_inv :: "nat \<Rightarrow> real \<Rightarrow> dstate \<Rightarrow> bool" where
  "detector_inv sr th st =
     (segs_ok sr th (peaks st)
      \<and> (peaks st \<noteq> [] \<longrightarrow>
            end' (last (peaks st)) = double (real_of_int (lastPeakIndex st) / real sr))
      \<and> (isInPeak st \<longrightarrow>
            lastPeakIndex st + minPeakDistanceSamples sr \<le> peakStartIndex st
            \<and> th < maxAmplitude st))"

subsection \<open>The windowed RMS as a formula\<close>


subsection \<open>Example inputs\<close>

text \<open>A buffer of 30 samples at 200 Hz (RMS window of one sample) with two hits, at the
  indices 5 and 26.\<close>

definition twoHits :: AudioBuffer where
  "twoHits = \<lparr>sampleRate = 200, channels = [map Num
      [0, 0, 0, 0, 0, 1, 0, 0, 0, 0,  0, 0, 0, 0, 0, 0, 0, 0, 0, 0,
       0, 0, 0, 0, 0, 0, 1, 0, 0, 0]]\<rparr>"

text \<open>A buffer of 40 samples at 200 Hz: one hit at index 0, a silent sample, then 38
  full-scale samples of alternating sign, so that the second peak starts on the exclusion
  boundary.\<close>

definition hitThenRun :: AudioBuffer where
  "hitThenRun = \<lparr>sampleRate = 200, channels = [map Num
      [1, 0, 1, - 1, 1, - 1, 1, - 1, 1, - 1,  1, - 1, 1, - 1, 1, - 1, 1, - 1, 1, - 1,
       1, - 1, 1, - 1, 1, - 1, 1, - 1, 1, - 1,  1, - 1, 1, - 1, 1, - 1, 1, - 1, 1, - 1]]\<rparr>"


definition silentSecond :: AudioBuffer where
  "silentSecond = \<lparr>sampleRate = 48000, channels = [replicate 48000 (Num 0)]\<rparr>"

definition emptyBuffer :: AudioBuffer where
  "emptyBuffer = \<lparr>sampleRate = 48000, channels = [[]]\<rparr>"





text \<open>A mono buffer of four samples at 8 kHz.\<close>

definition fourSamples :: AudioBuffer where
  "fourSamples = \<lparr>sampleRate = 8000,
       channels = [[Num (1 / 2), Num (1 / 4), Num 0, Num (- 1 / 2)]]\<rparr>"

section \<open>Properties\<close>

subsection \<open>Rounding to a double is monotone\<close>

lemma rne_of_int: "rne (real_of_int n) = n"
  by (simp add: rne_def)

lemma rne_ge_floor: "\<lfloor>x\<rfloor> \<le> rne x"
  by (simp add: rne_def Let_def)

lemma rne_le_floor1: "rne x \<le> \<lfloor>x\<rfloor> + 1"
  by (simp add: rne_def Let_def)

lemma rne_mono: "x \<le> y \<Longrightarrow> rne x \<le> rne y"
proof -
  assume xy: "x \<le> y"
  then have f: "\<lfloor>x\<rfloor> \<le> \<lfloor>y\<rfloor>" by (rule floor_mono)
  show ?thesis
  proof (cases "\<lfloor>x\<rfloor> = \<lfloor>y\<rfloor>")
    case True
    then show ?thesis using xy by (auto simp: rne_def Let_def)
  next
    case False
    then have "\<lfloor>x\<rfloor> + 1 \<le> \<lfloor>y\<rfloor>" using f by simp
    then show ?thesis using rne_le_floor1 [of x] rne_ge_floor [of y] by linarith
  qed
qed

lemma rne_ge: "real_of_int n \<le> x \<Longrightarrow> n \<le> rne x"
  using rne_mono [of "real_of_int n" x] by (simp add: rne_of_int)

lemma rne_le: "x \<le> real_of_int n \<Longrightarrow> rne x \<le> n"
  using rne_mono [of x "real_of_int n"] by (simp add: rne_of_int)

lemma double_zero [simp]: "double 0 = 0"
  by (simp add: double_def)

lemma double_minus: "double (- x) = - double x"
  by (simp add: double_def ulp_def sgn_minus)

lemma ulp_pos: "0 < ulp x"
  by (simp add: ulp_def)

lemma double_binade:
  assumes "0 < x" "2 powr real_of_int e \<le> x" "x < 2 powr real_of_int (e + 1)"
  shows "double x = 2 powr real_of_int (e - 52)
                      * real_of_int (rne (x / 2 powr real_of_int (e - 52)))"
proof -
  have "\<lfloor>log 2 x\<rfloor> = e"
    using assms by (simp add: floor_log_eq_powr_iff)
  then show ?thesis
    using assms(1) by (simp add: double_def ulp_def)
qed

lemma powr_split: "2 powr real_of_int e = 2 powr real_of_int (e - 52) * 2 ^ 52"
proof -
  have "real_of_int e = real_of_int (e - 52) + real (52::nat)"
    by simp
  then have "2 powr real_of_int e = 2 powr (real_of_int (e - 52) + real (52::nat))"
    by (simp only:)
  also have "\<dots> = 2 powr real_of_int (e - 52) * 2 powr real (52::nat)"
    by (rule powr_add)
  also have "2 powr real (52::nat) = (2::real) ^ 52"
    by (subst powr_realpow) simp_all
  finally show ?thesis .
qed

lemma powr_split1: "2 powr real_of_int (e + 1) = 2 powr real_of_int (e - 52) * 2 ^ 53"
proof -
  have "real_of_int (e + 1) = real_of_int (e - 52) + real (53::nat)"
    by simp
  then have "2 powr real_of_int (e + 1) = 2 powr (real_of_int (e - 52) + real (53::nat))"
    by (simp only:)
  also have "\<dots> = 2 powr real_of_int (e - 52) * 2 powr real (53::nat)"
    by (rule powr_add)
  also have "2 powr real (53::nat) = (2::real) ^ 53"
    by (subst powr_realpow) simp_all
  finally show ?thesis .
qed

lemma double_range:
  assumes "0 < x" "2 powr real_of_int e \<le> x" "x < 2 powr real_of_int (e + 1)"
  shows "2 powr real_of_int e \<le> double x" and "double x \<le> 2 powr real_of_int (e + 1)"
proof -
  define u :: real where "u = 2 powr real_of_int (e - 52)"
  have u: "0 < u" by (simp add: u_def)
  have a2: "u * 2 ^ 52 \<le> x"
    using assms(2) unfolding powr_split [of e] u_def .
  have a3: "x < u * 2 ^ 53"
    using assms(3) unfolding powr_split1 [of e] u_def .
  have d: "double x = u * real_of_int (rne (x / u))"
    unfolding u_def by (rule double_binade [OF assms])
  have lo: "real_of_int (2 ^ 52) \<le> x / u"
    using a2 u by (simp add: le_divide_eq mult.commute)
  have hi: "x / u \<le> real_of_int (2 ^ 53)"
    using a3 u by (simp add: divide_le_eq mult.commute)
  have "2 ^ 52 \<le> rne (x / u)" by (rule rne_ge [OF lo])
  then have "real_of_int (2 ^ 52) \<le> real_of_int (rne (x / u))"
    by (simp only: of_int_le_iff)
  then have "u * 2 ^ 52 \<le> u * real_of_int (rne (x / u))"
    using u by simp
  then show "2 powr real_of_int e \<le> double x"
    unfolding d powr_split [of e] u_def [symmetric] .
  have "rne (x / u) \<le> 2 ^ 53" by (rule rne_le [OF hi])
  then have "real_of_int (rne (x / u)) \<le> real_of_int (2 ^ 53)"
    by (simp only: of_int_le_iff)
  then have "u * real_of_int (rne (x / u)) \<le> u * 2 ^ 53"
    using u by simp
  then show "double x \<le> 2 powr real_of_int (e + 1)"
    unfolding d powr_split1 [of e] u_def [symmetric] .
qed

lemma binade_ex:
  assumes "0 < x"
  shows "2 powr real_of_int \<lfloor>log 2 x\<rfloor> \<le> x \<and> x < 2 powr real_of_int (\<lfloor>log 2 x\<rfloor> + 1)"
  using assms floor_log_eq_powr_iff [of x 2 "\<lfloor>log 2 x\<rfloor>"] by simp

lemma double_mono_pos:
  assumes "0 < x" "x \<le> y"
  shows "double x \<le> double y"
proof -
  let ?a = "\<lfloor>log 2 x\<rfloor>" and ?b = "\<lfloor>log 2 y\<rfloor>"
  have y: "0 < y" using assms by simp
  have bx: "2 powr real_of_int ?a \<le> x" "x < 2 powr real_of_int (?a + 1)"
    using binade_ex [OF assms(1)] by simp_all
  have yb: "2 powr real_of_int ?b \<le> y" "y < 2 powr real_of_int (?b + 1)"
    using binade_ex [OF y] by simp_all
  have ab: "?a \<le> ?b"
    using assms by (intro floor_mono log_mono) simp_all
  show ?thesis
  proof (cases "?a = ?b")
    case True
    let ?u = "2 powr real_of_int (?a - 52)"
    have "x / ?u \<le> y / ?u" using assms(2) by (simp add: divide_right_mono)
    then have "rne (x / ?u) \<le> rne (y / ?u)" by (rule rne_mono)
    then have "?u * real_of_int (rne (x / ?u)) \<le> ?u * real_of_int (rne (y / ?u))"
      by simp
    then show ?thesis
      using double_binade [OF assms(1) bx] double_binade [OF y yb] True by simp
  next
    case False
    then have "?a + 1 \<le> ?b" using ab by simp
    then have "2 powr real_of_int (?a + 1) \<le> (2::real) powr real_of_int ?b"
      by (intro powr_mono) simp_all
    then show ?thesis
      using double_range(2) [OF assms(1) bx] double_range(1) [OF y yb] by linarith
  qed
qed

lemma double_nonneg: "0 \<le> x \<Longrightarrow> 0 \<le> double x"
  by (cases "x = 0") (simp_all add: double_def ulp_def rne_ge)

lemma double_mono: "x \<le> y \<Longrightarrow> double x \<le> double y"
proof -
  assume xy: "x \<le> y"
  consider "0 < x" | "x \<le> 0 \<and> 0 \<le> y" | "y < 0" using xy by linarith
  then show ?thesis
  proof cases
    case 1
    then show ?thesis using xy by (rule double_mono_pos)
  next
    case 2
    then have "double x \<le> 0" using double_nonneg [of "- x"] by (simp add: double_minus)
    moreover have "0 \<le> double y" using 2 by (simp add: double_nonneg)
    ultimately show ?thesis by simp
  next
    case 3
    then have "double (- y) \<le> double (- x)" using xy by (intro double_mono_pos) simp_all
    then show ?thesis by (simp add: double_minus)
  qed
qed

text \<open>The double of a value below one, from its binade.\<close>

lemma powr_neg_nat: "(2::real) powr (- real k) = 1 / 2 ^ k"
  by (simp add: powr_minus powr_realpow inverse_eq_divide)

lemma double_below_one:
  assumes "1 / 2 ^ k \<le> x" "x < 2 / 2 ^ k"
  shows "double x = real_of_int (rne (x * 2 ^ (k + 52))) / 2 ^ (k + 52)"
proof -
  have "(0::real) < 1 / 2 ^ k" by simp
  then have pos: "0 < x" using assms(1) by linarith
  have r0: "real_of_int (- int k) = - real k" by simp
  have r1: "real_of_int (- int k + 1) = - real k + 1" by simp
  have r2: "real_of_int (- int k - 52) = - real (k + 52)" by simp
  have e0: "2 powr real_of_int (- int k) = 1 / 2 ^ k"
    unfolding r0 by (rule powr_neg_nat)
  have e1: "2 powr real_of_int (- int k + 1) = 2 / 2 ^ k"
    unfolding r1 powr_add powr_neg_nat by simp
  have u: "2 powr real_of_int (- int k - 52) = 1 / 2 ^ (k + 52)"
    unfolding r2 by (rule powr_neg_nat)
  have "double x = 2 powr real_of_int (- int k - 52)
                     * real_of_int (rne (x / 2 powr real_of_int (- int k - 52)))"
  proof (rule double_binade [OF pos])
    show "2 powr real_of_int (- int k) \<le> x" unfolding e0 by (rule assms(1))
    show "x < 2 powr real_of_int (- int k + 1)" unfolding e1 by (rule assms(2))
  qed
  then show ?thesis unfolding u by simp
qed

text \<open>The double of a value from one up to \<open>2^53\<close>.\<close>

lemma double_from_one:
  assumes "2 ^ k \<le> x" "x < 2 * 2 ^ k" "k \<le> 52"
  shows "double x = real_of_int (rne (x * 2 ^ (52 - k))) / 2 ^ (52 - k)"
proof -
  have "(0::real) < 2 ^ k" by simp
  then have pos: "0 < x" using assms(1) by linarith
  have r0: "real_of_int (int k) = real k" by simp
  have r1: "real_of_int (int k + 1) = real (Suc k)" by simp
  have r2: "real_of_int (int k - 52) = - real (52 - k)" using assms(3) by simp
  have e0: "2 powr real_of_int (int k) = 2 ^ k"
    unfolding r0 by (subst powr_realpow) simp_all
  have e1: "2 powr real_of_int (int k + 1) = 2 * 2 ^ k"
    unfolding r1 by (subst powr_realpow) simp_all
  have u: "2 powr real_of_int (int k - 52) = 1 / 2 ^ (52 - k)"
    unfolding r2 by (rule powr_neg_nat)
  have "double x = 2 powr real_of_int (int k - 52)
                     * real_of_int (rne (x / 2 powr real_of_int (int k - 52)))"
  proof (rule double_binade [OF pos])
    show "2 powr real_of_int (int k) \<le> x" unfolding e0 by (rule assms(1))
    show "x < 2 powr real_of_int (int k + 1)" unfolding e1 by (rule assms(2))
  qed
  then show ?thesis unfolding u by simp
qed

subsection \<open>The iterations as folds, the constants as integer quotients\<close>

lemma loop_fold: "loop data sr th i st = fold (step data sr th) [i..<length data] st"
proof (induction data sr th i st rule: loop.induct)
  case (1 data sr th i st)
  show ?case
  proof (cases "i < length data")
    case True
    then show ?thesis using 1 by (subst loop.simps) (simp add: upt_conv_Cons)
  next
    case False
    then show ?thesis by (subst loop.simps) simp
  qed
qed

lemma floor_frac: "0 < d \<Longrightarrow> \<lfloor>real n / real d\<rfloor> = int (n div d)"
  by (simp add: floor_divide_of_nat_eq)

lemma samples_div:
  "minPeakDistanceSamples sr = int (sr div 20)"
  "prePeakBufferSamples sr = int (sr div 40)"
  "postPeakBufferSamples sr = int (sr div 20)"
  "minSegmentSamples sr = int (sr div 20)"
  "maxSegmentSamples sr = int (sr div 5)"
  "rmsWindowSize sr = sr div 200"
proof -
  have a: "5 / 100 * real sr = real sr / real 20" by simp
  have b: "25 / 1000 * real sr = real sr / real 40" by simp
  have c: "2 / 10 * real sr = real sr / real 5" by simp
  have d: "5 / 1000 * real sr = real sr / real 200" by simp
  show "minPeakDistanceSamples sr = int (sr div 20)"
    unfolding minPeakDistanceSamples_def MIN_PEAK_DISTANCE_def a by (rule floor_frac) simp
  show "prePeakBufferSamples sr = int (sr div 40)"
    unfolding prePeakBufferSamples_def PRE_PEAK_BUFFER_def b by (rule floor_frac) simp
  show "postPeakBufferSamples sr = int (sr div 20)"
    unfolding postPeakBufferSamples_def POST_PEAK_BUFFER_def a by (rule floor_frac) simp
  show "minSegmentSamples sr = int (sr div 20)"
    unfolding minSegmentSamples_def MIN_SEGMENT_DURATION_def a by (rule floor_frac) simp
  show "maxSegmentSamples sr = int (sr div 5)"
    unfolding maxSegmentSamples_def MAX_SEGMENT_DURATION_def c by (rule floor_frac) simp
  have "\<lfloor>5 / 1000 * real sr\<rfloor> = int (sr div 200)"
    unfolding d by (rule floor_frac) simp
  then show "rmsWindowSize sr = sr div 200"
    unfolding rmsWindowSize_def by simp
qed

subsection \<open>The invariant is kept\<close>

lemma gapped_snoc:
  "gapped sr (ps @ [p]) =
     (gapped sr ps \<and>
      (ps = [] \<or> (\<exists>e s. end' (last ps) = double (real_of_int e / real sr)
                        \<and> start p = double (real_of_int s / real sr)
                        \<and> e + minPeakDistanceSamples sr \<le> s)))"
  by (induction sr ps rule: gapped.induct) auto

lemma gapped_nth:
  "gapped sr ps \<Longrightarrow> Suc i < length ps \<Longrightarrow>
     \<exists>e s. end' (ps ! i) = double (real_of_int e / real sr)
           \<and> start (ps ! Suc i) = double (real_of_int s / real sr)
           \<and> e + minPeakDistanceSamples sr \<le> s"
proof (induction sr ps arbitrary: i rule: gapped.induct)
  case (1 sr p q ps)
  then show ?case by (cases i) auto
qed auto

lemma detector_inv_init: "detector_inv sr th (init sr)"
  by (simp add: detector_inv_def init_def segs_ok_def)

lemma min_le_max: "minSegmentSamples sr \<le> maxSegmentSamples sr"
  by (simp add: samples_div)

lemma segs_ok_snoc:
  assumes ok: "segs_ok sr th ps"
    and lst: "ps \<noteq> [] \<longrightarrow> end' (last ps) = double (real_of_int l / real sr)"
    and gap: "l + minPeakDistanceSamples sr \<le> s"
    and lo: "minSegmentSamples sr \<le> e - s"
    and hi: "e - s \<le> maxSegmentSamples sr"
    and amp: "th < a"
  shows "segs_ok sr th (ps @ [\<lparr>start = double (real_of_int s / real sr),
                                end' = double (real_of_int e / real sr), amplitude = a\<rparr>])"
proof -
  let ?p = "\<lparr>start = double (real_of_int s / real sr),
             end' = double (real_of_int e / real sr), amplitude = a\<rparr>"
  have new: "seg_ok sr th ?p"
    unfolding seg_ok_def using lo hi amp by auto
  have "ps = [] \<or> (\<exists>e' s'. end' (last ps) = double (real_of_int e' / real sr)
                        \<and> start ?p = double (real_of_int s' / real sr)
                        \<and> e' + minPeakDistanceSamples sr \<le> s')"
    using lst gap by auto
  then have "gapped sr (ps @ [?p])"
    using ok by (simp only: gapped_snoc segs_ok_def)
  then show ?thesis
    using ok new by (simp add: segs_ok_def)
qed

lemma closePeak_emits:
  "\<exists>e. minSegmentSamples sr \<le> e - peakStartIndex st \<and> e - peakStartIndex st \<le> maxSegmentSamples sr
     \<and> closePeak data sr i st =
         st\<lparr>peaks := peaks st @ [\<lparr>start = double (real_of_int (peakStartIndex st) / real sr),
                                      end' = double (real_of_int e / real sr),
                                      amplitude = maxAmplitude st\<rparr>],
            lastPeakIndex := e\<rparr>"
proof -
  let ?s = "peakStartIndex st"
  define e0 where "e0 = min (int i + postPeakBufferSamples sr) (int (length data))"
  define e1 where "e1 = (if e0 - ?s < minSegmentSamples sr then ?s + minSegmentSamples sr else e0)"
  define e2 where "e2 = (if e1 - ?s > maxSegmentSamples sr then ?s + maxSegmentSamples sr else e1)"
  have lo: "minSegmentSamples sr \<le> e2 - ?s" and hi: "e2 - ?s \<le> maxSegmentSamples sr"
    using min_le_max [of sr] by (auto simp: e2_def e1_def)
  have "closePeak data sr i st =
         st\<lparr>peaks := peaks st @ [\<lparr>start = double (real_of_int ?s / real sr),
                                      end' = double (real_of_int e2 / real sr),
                                      amplitude = maxAmplitude st\<rparr>],
            lastPeakIndex := e2\<rparr>"
    unfolding closePeak_def Let_def e0_def [symmetric] e1_def [symmetric] e2_def [symmetric]
    using lo by simp
  with lo hi show ?thesis by blast
qed

lemma detector_inv_closePeak:
  assumes "detector_inv sr th st" "isInPeak st"
  shows "detector_inv sr th (closePeak data sr i (st\<lparr>isInPeak := False\<rparr>))"
proof -
  let ?s = "peakStartIndex st"
  obtain e where lo: "minSegmentSamples sr \<le> e - ?s" and hi: "e - ?s \<le> maxSegmentSamples sr"
    and eq: "closePeak data sr i (st\<lparr>isInPeak := False\<rparr>) =
        st\<lparr>isInPeak := False,
           peaks := peaks st @ [\<lparr>start = double (real_of_int ?s / real sr), end' = double (real_of_int e / real sr),
                                 amplitude = maxAmplitude st\<rparr>],
           lastPeakIndex := e\<rparr>"
    using closePeak_emits [of sr "st\<lparr>isInPeak := False\<rparr>" data i] by auto
  have "segs_ok sr th (peaks st @ [\<lparr>start = double (real_of_int ?s / real sr),
          end' = double (real_of_int e / real sr), amplitude = maxAmplitude st\<rparr>])"
    using assms lo hi by (intro segs_ok_snoc [where l = "lastPeakIndex st"]) (auto simp: detector_inv_def)
  then show ?thesis
    unfolding eq by (simp add: detector_inv_def)
qed

lemma detector_inv_step: "detector_inv sr th st \<Longrightarrow> detector_inv sr th (step data sr th i st)"
proof (cases "calculateRMS data i (rmsWindowSize sr)")
  case NaN
  assume "detector_inv sr th st"
  then show ?thesis using NaN by (simp add: step_def)
next
  case (Num rms)
  assume i: "detector_inv sr th st"
  show ?thesis
    using i detector_inv_closePeak [OF i, of data i]
    by (auto simp: step_def Num detector_inv_def)
qed

lemma detector_inv_fold: "detector_inv sr th st \<Longrightarrow> detector_inv sr th (fold (step data sr th) is st)"
  by (induction "is" arbitrary: st) (simp_all add: detector_inv_step)

lemma segs_ok_flush: "detector_inv sr th st \<Longrightarrow> segs_ok sr th (flush data sr st)"
proof -
  assume i: "detector_inv sr th st"
  show ?thesis
  proof (cases "isInPeak st \<and> min (int (length data)) (peakStartIndex st + maxSegmentSamples sr)
                   - peakStartIndex st \<ge> minSegmentSamples sr")
    case True
    then have "segs_ok sr th (peaks st @ [\<lparr>start = double (real_of_int (peakStartIndex st) / real sr),
          end' = double (real_of_int (min (int (length data)) (peakStartIndex st + maxSegmentSamples sr)) / real sr),
          amplitude = maxAmplitude st\<rparr>])"
      using i by (intro segs_ok_snoc [where l = "lastPeakIndex st"]) (auto simp: detector_inv_def)
    then show ?thesis using True by (simp add: flush_def Let_def)
  next
    case False
    then show ?thesis using i by (auto simp: flush_def Let_def detector_inv_def)
  qed
qed

lemma segs_ok_detect:
  "segs_ok sr th (flush data sr (loop data sr th 0 (init sr)))"
  by (simp add: loop_fold segs_ok_flush detector_inv_fold detector_inv_init)

lemma detectPeaks_Inr:
  "detectPeaks ab th = Inr ps \<Longrightarrow>
     channels ab \<noteq> [] \<and>
     ps = flush (hd (channels ab)) (sampleRate ab)
            (loop (hd (channels ab)) (sampleRate ab) th 0 (init (sampleRate ab)))"
  by (auto simp: detectPeaks_def getChannelData_def numberOfChannels_def hd_conv_nth
      split: sum.splits if_splits)

lemma getChannelData_Inr:
  "getChannelData ab 0 = Inr data \<Longrightarrow>
     detectPeaks ab th =
       Inr (flush data (sampleRate ab) (loop data (sampleRate ab) th 0 (init (sampleRate ab))))"
  by (simp add: detectPeaks_def)

lemma detectPeaks_segs_ok:
  assumes "detectPeaks ab th = Inr ps"
  shows "segs_ok (sampleRate ab) th ps"
  using detectPeaks_Inr [OF assms] segs_ok_detect by simp

lemma seg_ok_start_le_end: "seg_ok sr th p \<Longrightarrow> start p \<le> end' p"
proof -
  assume "seg_ok sr th p"
  then obtain s e where p: "start p = double (real_of_int s / real sr)"
      "end' p = double (real_of_int e / real sr)" and lo: "minSegmentSamples sr \<le> e - s"
    by (auto simp: seg_ok_def)
  have "0 \<le> minSegmentSamples sr" by (simp add: samples_div)
  then have "real_of_int s / real sr \<le> real_of_int e / real sr"
    using lo by (intro divide_right_mono) simp_all
  then show ?thesis unfolding p by (rule double_mono)
qed

lemma empty_buffer: "flush [] sr (loop [] sr th 0 (init sr)) = []"
  by (simp add: loop_fold flush_def init_def)

subsection \<open>The RMS of a window\<close>

lemma sumSquares_Num:
  "e \<le> length xs \<Longrightarrow>
     sumSquares (map Num xs) i e (Num a) = Num (a + (\<Sum>j = i..<e. xs ! j * xs ! j))"
proof (induction "e - i" arbitrary: i a)
  case 0
  then show ?case by (subst sumSquares.simps) simp
next
  case (Suc n)
  then have lt: "i < e" and n: "n = e - Suc i" by auto
  have "sumSquares (map Num xs) i e (Num a)
          = sumSquares (map Num xs) (Suc i) e (Num (a + xs ! i * xs ! i))"
    using lt Suc.prems by (subst sumSquares.simps) (simp add: rd_def)
  also have "\<dots> = Num (a + xs ! i * xs ! i + (\<Sum>j = Suc i..<e. xs ! j * xs ! j))"
    using Suc.hyps(1) [OF n Suc.prems] .
  finally show ?case using lt by (simp add: sum.atLeast_Suc_lessThan add.assoc)
qed

lemma calculateRMS_Num:
  assumes "i < length xs" "0 < w"
  shows "calculateRMS (map Num xs) i w =
           Num (sqrt ((\<Sum>j = i..<min (i + w) (length xs). xs ! j * xs ! j)
                        / real (min (i + w) (length xs) - i)))"
proof -
  let ?e = "min (i + w) (length xs)"
  have lt: "i < ?e" using assms by simp
  have nn: "0 \<le> (\<Sum>j = i..<?e. xs ! j * xs ! j)" by (intro sum_nonneg) simp
  have d: "int ?e - int i = int (?e - i)" using lt by simp
  have "\<not> (\<Sum>j = i..<?e. xs ! j * xs ! j) / real (?e - i) < 0"
    using nn by (simp add: not_less)
  then show ?thesis
    using lt unfolding calculateRMS_def Let_def length_map d
    by (simp add: sumSquares_Num del: of_nat_diff min_less_iff_conj)
qed

text \<open>An empty window (a sample rate under 200 Hz) gives \<open>0 / 0\<close>.\<close>

lemma calculateRMS_empty_window: "i \<le> length data \<Longrightarrow> calculateRMS data i 0 = NaN"
  by (simp add: calculateRMS_def Let_def min_absorb1 sumSquares.simps)

text \<open>A window of one sample gives the magnitude of that sample.\<close>

lemma calculateRMS_window1:
  "i < length data \<Longrightarrow>
     calculateRMS data i (Suc 0) = (case data ! i of NaN \<Rightarrow> NaN | Num x \<Rightarrow> Num \<bar>x\<bar>)"
proof -
  assume lt: "i < length data"
  then have e: "min (i + Suc 0) (length data) = Suc i" by simp
  show ?thesis
    unfolding calculateRMS_def Let_def e using lt
    by (subst sumSquares.simps, subst sumSquares.simps)
       (simp add: rd_def real_sqrt_mult split: number.split)
qed

subsection \<open>\<open>calculateRMS\<close> against the formula\<close>





lemma calculateRMS_silence:
  assumes "i < n" "calculateRMS (replicate n (Num 0)) i w = Num r"
  shows "r = 0"
proof (cases "w = 0")
  case True
  then show ?thesis using assms by (simp add: calculateRMS_empty_window)
next
  case False
  have "(\<Sum>j = i..<min (i + w) n. replicate n (0::real) ! j * replicate n 0 ! j) = 0"
    by (intro sum.neutral) simp
  then have "calculateRMS (replicate n (Num 0)) i w = Num 0"
    using assms(1) False calculateRMS_Num [of i "replicate n 0" w] by simp
  then show ?thesis using assms(2) by simp
qed

subsection \<open>Single iterations and runs of iterations\<close>





lemma fold_idle:
  assumes "\<not> isInPeak st"
    and "\<forall>i \<in> set js. \<forall>r. calculateRMS data i (rmsWindowSize sr) = Num r \<longrightarrow> r \<le> th"
  shows "fold (step data sr th) js st = st"
  using assms
proof (induction js)
  case Nil
  then show ?case by simp
next
  case (Cons j js)
  have "step data sr th j st = st"
    using Cons.prems by (auto simp: step_def split: number.split)
  then show ?case using Cons by simp
qed





subsection \<open>The example buffers\<close>

lemma twoHits_peaks:
  "detectPeaks twoHits (1 / 2) =
     Inr [\<lparr>start = 0, end' = double (16 / 200), amplitude = 1\<rparr>,
          \<lparr>start = double (26 / 200), end' = double (36 / 200), amplitude = 1\<rparr>]"
  by (simp add: detectPeaks_def twoHits_def getChannelData_def numberOfChannels_def loop_fold
      init_def flush_def step_def closePeak_def samples_div calculateRMS_window1 upt_conv_Cons)

lemma hitThenRun_peaks:
  "detectPeaks hitThenRun (1 / 2) =
     Inr [\<lparr>start = 0, end' = double (11 / 200), amplitude = 1\<rparr>,
          \<lparr>start = double (21 / 200), end' = double (40 / 200), amplitude = 1\<rparr>]"
  by (simp add: detectPeaks_def hitThenRun_def getChannelData_def numberOfChannels_def loop_fold
      init_def flush_def step_def closePeak_def samples_div calculateRMS_window1 upt_conv_Cons)

text \<open>The doubles of some of these seconds, as fractions.\<close>

lemma double_36_200: "double (36 / 200) = 6485183463413514 / 2 ^ 55"
  by (subst double_below_one [where k = 3]) (simp_all add: rne_def)

lemma double_26_200: "double (26 / 200) = 4683743612465316 / 2 ^ 55"
  by (subst double_below_one [where k = 3]) (simp_all add: rne_def)

lemma double_11_200: "double (11 / 200) = 7926335344172073 / 2 ^ 57"
  by (subst double_below_one [where k = 5]) (simp_all add: rne_def)

lemma double_21_200: "double (21 / 200) = 7566047373982433 / 2 ^ 56"
  by (subst double_below_one [where k = 4]) (simp_all add: rne_def)


subsection \<open>Scenario A\<close>













subsection \<open>sliceAudio as a map over the channels\<close>

lemma copySamples_eq:
  "i \<le> nat d \<Longrightarrow> length ncd = nat d \<Longrightarrow>
     copySamples cd s d i ncd = take i ncd @ map (\<lambda>k. rd cd (s + int k)) [i..<nat d]"
proof (induction "nat d - i" arbitrary: i ncd)
  case 0
  then have "\<not> int i < d" by linarith
  then show ?case using 0 by (subst copySamples.simps) simp
next
  case (Suc n)
  then have lt: "i < nat d" and n: "n = nat d - Suc i" by auto
  then have lt': "int i < d" by linarith
  let ?ncd = "ncd[i := rd cd (s + int i)]"
  have "copySamples cd s d i ncd = copySamples cd s d (Suc i) ?ncd"
    using lt' by (subst copySamples.simps) simp
  also have "\<dots> = take (Suc i) ?ncd @ map (\<lambda>k. rd cd (s + int k)) [Suc i..<nat d]"
    using lt Suc.prems by (intro Suc.hyps(1) [OF n]) simp_all
  also have "take (Suc i) ?ncd = take i ncd @ [rd cd (s + int i)]"
    using lt Suc.prems by (simp add: take_Suc_conv_app_nth)
  finally show ?case using lt by (simp add: upt_conv_Cons)
qed

lemma copySamples_all:
  "length ncd = nat d \<Longrightarrow>
     copySamples cd s d 0 ncd = map (\<lambda>k. rd cd (s + int k)) [0..<nat d]"
  by (simp add: copySamples_eq)

lemma copyChannels_eq:
  "c \<le> length (channels ab) \<Longrightarrow> length (channels nb) = length (channels ab) \<Longrightarrow>
   \<forall>ncd \<in> set (channels nb). length ncd = nat d \<Longrightarrow>
     copyChannels ab s d c nb =
       Inr (nb\<lparr>channels := take c (channels nb)
                   @ map (\<lambda>cd. map (\<lambda>k. rd cd (s + int k)) [0..<nat d]) (drop c (channels ab))\<rparr>)"
proof (induction "length (channels ab) - c" arbitrary: c nb)
  case 0
  then show ?case by (subst copyChannels.simps) (simp add: numberOfChannels_def)
next
  case (Suc n)
  then have lt: "c < length (channels ab)" and n: "n = length (channels ab) - Suc c" by auto
  let ?new = "map (\<lambda>k. rd (channels ab ! c) (s + int k)) [0..<nat d]"
  let ?nb = "nb\<lparr>channels := (channels nb)[c := ?new]\<rparr>"
  have len: "length (channels nb ! c) = nat d"
    using Suc.prems lt by simp
  have "copyChannels ab s d c nb = copyChannels ab s d (Suc c) ?nb"
    using lt Suc.prems(2) len
    by (subst copyChannels.simps)
       (simp add: numberOfChannels_def getChannelData_def copySamples_all)
  also have "\<dots> = Inr (?nb\<lparr>channels := take (Suc c) (channels ?nb)
                   @ map (\<lambda>cd. map (\<lambda>k. rd cd (s + int k)) [0..<nat d]) (drop (Suc c) (channels ab))\<rparr>)"
  proof (rule Suc.hyps(1) [OF n])
    show "Suc c \<le> length (channels ab)" using lt by simp
    show "length (channels ?nb) = length (channels ab)" using Suc.prems by simp
    show "\<forall>ncd \<in> set (channels ?nb). length ncd = nat d"
      using Suc.prems(3) by (auto dest!: set_update_subset_insert [THEN subsetD])
  qed
  also have "take (Suc c) (channels ?nb) = take c (channels nb) @ [?new]"
    using lt Suc.prems(2) by (simp add: take_Suc_conv_app_nth)
  finally show ?case
    using lt by (simp add: Cons_nth_drop_Suc [symmetric])
qed

lemma sliceAudio_eq:
  "sliceAudio ab s e =
     (if numberOfChannels ab = 0 \<or> \<lfloor>double (double (e - s) * real (sampleRate ab))\<rfloor> \<le> 0
         \<or> sampleRate ab = 0
      then Inl NotSupportedError
      else Inr \<lparr>sampleRate = sampleRate ab,
                channels = map (\<lambda>cd. map (\<lambda>k. rd cd (\<lfloor>double (s * real (sampleRate ab))\<rfloor> + int k))
                                         [0..<nat \<lfloor>double (double (e - s) * real (sampleRate ab))\<rfloor>])
                               (channels ab)\<rparr>)"
  by (simp add: sliceAudio_def Let_def createBuffer_def copyChannels_eq numberOfChannels_def)

lemma rd_in_range:
  "0 \<le> s \<Longrightarrow> nat s + n \<le> length cd \<Longrightarrow>
     map (\<lambda>k. rd cd (s + int k)) [0..<n] = take n (drop (nat s) cd)"
  by (rule nth_equalityI) (auto simp: rd_def nat_add_distrib)

text \<open>Dyadic values are their own doubles.\<close>

lemma double_125_16: "double (125 / 16) = 125 / 16"
  by (subst double_from_one [where k = 2]) (simp_all add: rne_def)

lemma double_1_1024: "double (1 / 1024) = 1 / 1024"
  by (subst double_below_one [where k = 10]) (simp_all add: rne_def)

text \<open>The sample indices that \<open>sliceAudio\<close> computes from the seconds of a segment that
  runs from index 26 to index 36 at 200 Hz: the start index is 26, the duration 9.\<close>

lemma double_segment_duration:
  "double (double (36 / 200) - double (26 / 200)) = 1801439850948198 / 2 ^ 55"
  unfolding double_36_200 double_26_200
  by (subst double_below_one [where k = 5]) (simp_all add: rne_def)

lemma double_segment_samples:
  "double (1801439850948198 / 2 ^ 55 * real (200::nat)) = 5629499534213119 / 2 ^ 49"
  by (subst double_from_one [where k = 3]) (simp_all add: rne_def)

lemma double_segment_start: "double (double (26 / 200) * real (200::nat)) = 26"
  unfolding double_26_200
  by (subst double_from_one [where k = 4]) (simp_all add: rne_def)

section \<open>The claims\<close>




text \<open>
  C2. For every buffer, sample rate and threshold, the segments that \<open>detectPeaks\<close> returns
  are in non-decreasing start order and do not overlap: each segment ends no later than the
  next one starts.
\<close>

theorem detectPeaks_ordered_nonoverlapping:
  assumes "detectPeaks ab th = Inr ps" and "Suc i < length ps"
  shows "start (ps ! i) \<le> start (ps ! Suc i) \<and> end' (ps ! i) \<le> start (ps ! Suc i)"
proof -
  let ?sr = "sampleRate ab"
  have ok: "segs_ok ?sr th ps" by (rule detectPeaks_segs_ok [OF assms(1)])
  then have "gapped ?sr ps" by (simp add: segs_ok_def)
  from gapped_nth [OF this assms(2)]
  obtain e s where e: "end' (ps ! i) = double (real_of_int e / real ?sr)"
    and s: "start (ps ! Suc i) = double (real_of_int s / real ?sr)"
    and gap: "e + minPeakDistanceSamples ?sr \<le> s"
    by blast
  have "0 \<le> minPeakDistanceSamples ?sr" by (simp add: samples_div)
  then have "real_of_int e / real ?sr \<le> real_of_int s / real ?sr"
    using gap by (intro divide_right_mono) simp_all
  then have "end' (ps ! i) \<le> start (ps ! Suc i)"
    unfolding e s by (rule double_mono)
  moreover have "start (ps ! i) \<le> end' (ps ! i)"
    using ok assms(2) by (intro seg_ok_start_le_end [of ?sr th]) (simp add: segs_ok_def)
  ultimately show ?thesis by simp
qed

theorem detectPeaks_ordered_nonoverlapping_witness:
  "detectPeaks twoHits (1 / 2) =
     Inr [\<lparr>start = 0, end' = double (16 / 200), amplitude = 1\<rparr>,
          \<lparr>start = double (26 / 200), end' = double (36 / 200), amplitude = 1\<rparr>]
   \<and> start \<lparr>start = 0, end' = double (16 / 200), amplitude = 1\<rparr>
         \<le> start \<lparr>start = double (26 / 200), end' = double (36 / 200), amplitude = 1\<rparr>
   \<and> end' \<lparr>start = 0, end' = double (16 / 200), amplitude = 1\<rparr>
         \<le> start \<lparr>start = double (26 / 200), end' = double (36 / 200), amplitude = 1\<rparr>"
  using detectPeaks_ordered_nonoverlapping [OF twoHits_peaks, of 0] twoHits_peaks by simp

text \<open>
  C3, as the code has it. The duration bounds hold for the sample indices: every segment that
  \<open>detectPeaks\<close> returns, the one pushed at the end of the buffer included, has as start and
  end the doubles of \<open>s / sampleRate\<close> and \<open>e / sampleRate\<close> for sample indices with
  \<open>minSegmentSamples \<le> e - s \<le> maxSegmentSamples\<close>, the constants converted to sample
  counts with \<open>Math.floor\<close>. The difference of the two rounded seconds is not bounded by the
  converted constants.
\<close>

theorem detectPeaks_duration_bounds:
  assumes "detectPeaks ab th = Inr ps" and "p \<in> set ps"
  shows "\<exists>s e. start p = double (real_of_int s / real (sampleRate ab))
             \<and> end' p = double (real_of_int e / real (sampleRate ab))
             \<and> minSegmentSamples (sampleRate ab) \<le> e - s
             \<and> e - s \<le> maxSegmentSamples (sampleRate ab)"
proof -
  have "seg_ok (sampleRate ab) th p"
    using detectPeaks_segs_ok [OF assms(1)] assms(2) by (simp add: segs_ok_def)
  then show ?thesis by (simp add: seg_ok_def)
qed

theorem detectPeaks_duration_bounds_witness:
  "detectPeaks twoHits (1 / 2) =
     Inr [\<lparr>start = 0, end' = double (16 / 200), amplitude = 1\<rparr>,
          \<lparr>start = double (26 / 200), end' = double (36 / 200), amplitude = 1\<rparr>]
   \<and> (\<exists>s e. double (26 / 200) = double (real_of_int s / real (sampleRate twoHits))
             \<and> double (36 / 200) = double (real_of_int e / real (sampleRate twoHits))
             \<and> minSegmentSamples (sampleRate twoHits) \<le> e - s
             \<and> e - s \<le> maxSegmentSamples (sampleRate twoHits))"
  using detectPeaks_duration_bounds [OF twoHits_peaks,
          of "\<lparr>start = double (26 / 200), end' = double (36 / 200), amplitude = 1\<rparr>"]
    twoHits_peaks
  by simp

text \<open>
  C3 as stated fails: the second segment of the two-hit buffer runs from index 26 to index 36
  at 200 Hz, the minimum of 10 samples, and the difference of its rounded seconds is below
  \<open>minSegmentSamples / sampleRate = 0.05\<close>.
\<close>

theorem detectPeaks_duration_counterexample:
  "detectPeaks twoHits (1 / 2) =
     Inr [\<lparr>start = 0, end' = double (16 / 200), amplitude = 1\<rparr>,
          \<lparr>start = double (26 / 200), end' = double (36 / 200), amplitude = 1\<rparr>]
   \<and> end' \<lparr>start = double (26 / 200), end' = double (36 / 200), amplitude = 1\<rparr>
       - start \<lparr>start = double (26 / 200), end' = double (36 / 200), amplitude = 1\<rparr>
       < real_of_int (minSegmentSamples 200) / real 200"
proof -
  have "double (36 / 200) - double (26 / 200) < real_of_int (minSegmentSamples 200) / real 200"
    unfolding double_36_200 double_26_200 by (simp add: samples_div)
  then show ?thesis using twoHits_peaks by simp
qed

text \<open>
  C4. \<open>detectPeaks\<close> is total: for every buffer that has a first channel, every sample
  rate and every threshold it returns a segment list and raises no error; a buffer of no samples
  gives the empty list. (The loop is the terminating recursion \<open>loop\<close>; the only failure of
  the model, \<open>IndexSizeError\<close>, needs a buffer with no channel at all.)
\<close>

theorem detectPeaks_total:
  assumes "0 < numberOfChannels ab"
  shows "(\<exists>ps. detectPeaks ab th = Inr ps)
         \<and> (getChannelData ab 0 = Inr [] \<longrightarrow> detectPeaks ab th = Inr [])"
  using assms by (auto simp: detectPeaks_def getChannelData_def empty_buffer)

theorem detectPeaks_total_witness:
  "0 < numberOfChannels emptyBuffer \<and> getChannelData emptyBuffer 0 = Inr []
   \<and> detectPeaks emptyBuffer (1 / 10) = Inr []"
  using detectPeaks_total [of emptyBuffer "1 / 10"]
  by (simp add: emptyBuffer_def getChannelData_def numberOfChannels_def)

text \<open>
  C5. \<open>detectPeaks\<close> is a function of the samples of channel 0, the sample rate and the
  threshold alone: two calls that agree on these return the same segment list, whatever the
  other channels hold.
\<close>

theorem detectPeaks_deterministic:
  assumes "getChannelData ab 0 = getChannelData ab' 0" and "sampleRate ab = sampleRate ab'"
  shows "detectPeaks ab th = detectPeaks ab' th"
  using assms by (simp add: detectPeaks_def split: sum.split)

theorem detectPeaks_deterministic_witness:
  "getChannelData twoHits 0
     = getChannelData (twoHits\<lparr>channels := channels twoHits @ [replicate 30 (Num 1)]\<rparr>) 0
   \<and> detectPeaks twoHits (1 / 2)
     = detectPeaks (twoHits\<lparr>channels := channels twoHits @ [replicate 30 (Num 1)]\<rparr>) (1 / 2)"
  using detectPeaks_deterministic
          [of twoHits "twoHits\<lparr>channels := channels twoHits @ [replicate 30 (Num 1)]\<rparr>" "1 / 2"]
  by (simp add: twoHits_def getChannelData_def numberOfChannels_def)

text \<open>
  C6. An all-zero sample buffer of any length, with any threshold above zero, gives no segment.
\<close>

theorem detectPeaks_silence:
  assumes "getChannelData ab 0 = Inr (replicate n (Num 0))" and "0 < th"
  shows "detectPeaks ab th = Inr []"
proof -
  let ?data = "replicate n (Num 0)" and ?sr = "sampleRate ab"
  have "\<forall>i \<in> set [0..<length ?data]. \<forall>r. calculateRMS ?data i (rmsWindowSize ?sr) = Num r \<longrightarrow> r \<le> th"
    using assms(2) calculateRMS_silence [of _ n "rmsWindowSize ?sr"] by fastforce
  then have "fold (step ?data ?sr th) [0..<length ?data] (init ?sr) = init ?sr"
    by (intro fold_idle) (simp_all add: init_def)
  then show ?thesis
    using getChannelData_Inr [OF assms(1), of th] by (simp add: loop_fold flush_def init_def)
qed

theorem detectPeaks_silence_witness:
  "getChannelData silentSecond 0 = Inr (replicate 48000 (Num 0)) \<and> (0::real) < 1 / 10
   \<and> detectPeaks silentSecond (1 / 10) = Inr []"
  using detectPeaks_silence [of silentSecond 48000 "1 / 10"]
  by (simp add: silentSecond_def getChannelData_def numberOfChannels_def)



text \<open>
  C8, as the code has it. \<open>sliceAudio\<close> copies the samples
  \<open>[sampleStart, sampleStart + sampleDuration)\<close>, where \<open>sampleStart\<close> is the floor of the
  double product \<open>start * sampleRate\<close> and \<open>sampleDuration\<close> the floor of the double product
  \<open>(end - start) * sampleRate\<close>. It checks no bounds: for a buffer with a channel, a positive
  sample rate and a positive sample duration it raises no error, whether or not the range
  lies inside the buffer, and returns a new buffer in which a position outside the source
  holds \<open>NaN\<close>; when the range lies inside the buffer, the new buffer holds exactly the
  samples of that range for every channel. (For the seconds of a segment that runs from index
  26 to index 36 at 200 Hz the range is 9 samples from index 26.)
\<close>

theorem sliceAudio_copies_range:
  assumes "sampleStart = \<lfloor>double (s * real (sampleRate ab))\<rfloor>"
    and "sampleDuration = \<lfloor>double (double (e - s) * real (sampleRate ab))\<rfloor>"
  shows "(0 < numberOfChannels ab \<and> 0 < sampleRate ab \<and> 0 < sampleDuration \<longrightarrow>
          sliceAudio ab s e =
            Inr \<lparr>sampleRate = sampleRate ab,
                 channels = map (\<lambda>cd. map (\<lambda>k. rd cd (sampleStart + int k)) [0..<nat sampleDuration])
                                (channels ab)\<rparr>)
     \<and> (0 < numberOfChannels ab \<and> 0 < sampleRate ab \<and> 0 < sampleDuration \<and> 0 \<le> sampleStart
          \<and> (\<forall>cd \<in> set (channels ab). sampleStart + sampleDuration \<le> int (length cd)) \<longrightarrow>
          sliceAudio ab s e =
            Inr \<lparr>sampleRate = sampleRate ab,
                 channels = map (\<lambda>cd. take (nat sampleDuration) (drop (nat sampleStart) cd))
                                (channels ab)\<rparr>)"
proof (intro conjI impI)
  assume "0 < numberOfChannels ab \<and> 0 < sampleRate ab \<and> 0 < sampleDuration"
  then show "sliceAudio ab s e =
            Inr \<lparr>sampleRate = sampleRate ab,
                 channels = map (\<lambda>cd. map (\<lambda>k. rd cd (sampleStart + int k)) [0..<nat sampleDuration])
                                (channels ab)\<rparr>"
    using assms by (simp add: sliceAudio_eq)
next
  assume a: "0 < numberOfChannels ab \<and> 0 < sampleRate ab \<and> 0 < sampleDuration \<and> 0 \<le> sampleStart
          \<and> (\<forall>cd \<in> set (channels ab). sampleStart + sampleDuration \<le> int (length cd))"
  then have "\<forall>cd \<in> set (channels ab).
               map (\<lambda>k. rd cd (sampleStart + int k)) [0..<nat sampleDuration]
                 = take (nat sampleDuration) (drop (nat sampleStart) cd)"
    by (intro ballI rd_in_range) auto
  then have "map (\<lambda>cd. map (\<lambda>k. rd cd (sampleStart + int k)) [0..<nat sampleDuration]) (channels ab)
               = map (\<lambda>cd. take (nat sampleDuration) (drop (nat sampleStart) cd)) (channels ab)"
    by (intro map_cong) simp_all
  then show "sliceAudio ab s e =
            Inr \<lparr>sampleRate = sampleRate ab,
                 channels = map (\<lambda>cd. take (nat sampleDuration) (drop (nat sampleStart) cd))
                                (channels ab)\<rparr>"
    using a assms by (simp add: sliceAudio_eq)
qed

theorem sliceAudio_copies_range_witness:
  "\<lfloor>double (double (26 / 200) * real (sampleRate hitThenRun))\<rfloor> = 26
   \<and> \<lfloor>double (double (double (36 / 200) - double (26 / 200)) * real (sampleRate hitThenRun))\<rfloor> = 9
   \<and> sliceAudio hitThenRun (double (26 / 200)) (double (36 / 200)) =
         Inr \<lparr>sampleRate = 200,
              channels = [[Num 1, Num (- 1), Num 1, Num (- 1), Num 1, Num (- 1), Num 1, Num (- 1), Num 1]]\<rparr>"
proof -
  have sr: "sampleRate hitThenRun = 200" by (simp add: hitThenRun_def)
  have a: "\<lfloor>double (double (26 / 200) * real (sampleRate hitThenRun))\<rfloor> = 26"
    unfolding sr double_segment_start by simp
  have b: "\<lfloor>double (double (double (36 / 200) - double (26 / 200)) * real (sampleRate hitThenRun))\<rfloor> = 9"
    unfolding sr double_segment_duration double_segment_samples by simp
  have c: "0 < numberOfChannels hitThenRun \<and> 0 < sampleRate hitThenRun \<and> (0::int) < 9
           \<and> (0::int) \<le> 26 \<and> (\<forall>cd \<in> set (channels hitThenRun). 26 + 9 \<le> int (length cd))"
    by (simp add: hitThenRun_def numberOfChannels_def)
  from sliceAudio_copies_range [OF a [symmetric] b [symmetric]] c
  have "sliceAudio hitThenRun (double (26 / 200)) (double (36 / 200)) =
          Inr \<lparr>sampleRate = sampleRate hitThenRun,
               channels = map (\<lambda>cd. take (nat 9) (drop (nat 26) cd)) (channels hitThenRun)\<rparr>"
    by blast
  moreover have "map (\<lambda>cd. take (nat 9) (drop (nat 26) cd)) (channels hitThenRun)
                   = [[Num 1, Num (- 1), Num 1, Num (- 1), Num 1, Num (- 1), Num 1, Num (- 1), Num 1]]"
    by (simp add: hitThenRun_def)
  ultimately have "sliceAudio hitThenRun (double (26 / 200)) (double (36 / 200)) =
         Inr \<lparr>sampleRate = 200,
              channels = [[Num 1, Num (- 1), Num 1, Num (- 1), Num 1, Num (- 1), Num 1, Num (- 1), Num 1]]\<rparr>"
    by (simp add: sr)
  with a b show ?thesis by blast
qed

text \<open>
  C8 as stated fails: a range of 7 samples asked of a buffer of 4 samples is no error; the
  result has 7 samples, the last three of them \<open>NaN\<close>.
\<close>

theorem sliceAudio_out_of_bounds_counterexample:
  "sliceAudio fourSamples 0 (1 / 1024) =
     Inr \<lparr>sampleRate = 8000,
          channels = [[Num (1 / 2), Num (1 / 4), Num 0, Num (- 1 / 2), NaN, NaN, NaN]]\<rparr>"
proof -
  have d: "\<lfloor>double (double (1 / 1024 - 0) * real (8000::nat))\<rfloor> = 7"
    by (simp add: double_1_1024 double_125_16)
  have s: "\<lfloor>double (0 * real (8000::nat))\<rfloor> = 0" by simp
  have u: "[0..<nat 7] = [0, 1, 2, 3, 4, 5, 6]" by (simp add: upt_conv_Cons)
  show ?thesis
    unfolding sliceAudio_eq fourSamples_def numberOfChannels_def AudioBuffer.simps d s u
    by (simp add: rd_def)
qed

text \<open>
  C9, as the code has it. The exclusion gap holds for the sample indices: of two adjacent
  segments, the first ends at the double of \<open>e / sampleRate\<close> and the next starts at the
  double of \<open>s / sampleRate\<close> for sample indices with \<open>e + minPeakDistanceSamples \<le> s\<close>. The
  gap is not kept by the rounded seconds.
\<close>

theorem detectPeaks_min_gap:
  assumes "detectPeaks ab th = Inr ps" and "Suc i < length ps"
  shows "\<exists>e s. end' (ps ! i) = double (real_of_int e / real (sampleRate ab))
             \<and> start (ps ! Suc i) = double (real_of_int s / real (sampleRate ab))
             \<and> e + minPeakDistanceSamples (sampleRate ab) \<le> s"
proof -
  have "gapped (sampleRate ab) ps"
    using detectPeaks_segs_ok [OF assms(1)] by (simp add: segs_ok_def)
  then show ?thesis using assms(2) by (rule gapped_nth)
qed

theorem detectPeaks_min_gap_witness:
  "detectPeaks twoHits (1 / 2) =
     Inr [\<lparr>start = 0, end' = double (16 / 200), amplitude = 1\<rparr>,
          \<lparr>start = double (26 / 200), end' = double (36 / 200), amplitude = 1\<rparr>]
   \<and> (\<exists>e s. double (16 / 200) = double (real_of_int e / real (sampleRate twoHits))
             \<and> double (26 / 200) = double (real_of_int s / real (sampleRate twoHits))
             \<and> e + minPeakDistanceSamples (sampleRate twoHits) \<le> s)"
  using detectPeaks_min_gap [OF twoHits_peaks, of 0] twoHits_peaks
  by simp

text \<open>
  C9 as stated fails: on the buffer with a hit and a run, at 200 Hz with threshold 0.5, the
  first segment ends at index 11 and the second starts at index 21, exactly
  \<open>minPeakDistanceSamples = 10\<close> later; in rounded seconds the second start is below the first
  end plus \<open>minPeakDistanceSamples / sampleRate\<close>.
\<close>

theorem detectPeaks_min_gap_counterexample:
  "detectPeaks hitThenRun (1 / 2) =
     Inr [\<lparr>start = 0, end' = double (11 / 200), amplitude = 1\<rparr>,
          \<lparr>start = double (21 / 200), end' = double (40 / 200), amplitude = 1\<rparr>]
   \<and> start \<lparr>start = double (21 / 200), end' = double (40 / 200), amplitude = 1\<rparr>
       < end' \<lparr>start = 0, end' = double (11 / 200), amplitude = 1\<rparr>
         + real_of_int (minPeakDistanceSamples 200) / real 200"
proof -
  have "double (21 / 200) < double (11 / 200) + real_of_int (minPeakDistanceSamples 200) / real 200"
    unfolding double_21_200 double_11_200 by (simp add: samples_div)
  then show ?thesis using hitThenRun_peaks by simp
qed

text \<open>
  C10. Every segment that \<open>detectPeaks\<close> returns has an amplitude strictly above the
  threshold.
\<close>

theorem detectPeaks_amplitude_above_threshold:
  assumes "detectPeaks ab th = Inr ps" and "p \<in> set ps"
  shows "th < amplitude p"
  using detectPeaks_segs_ok [OF assms(1)] assms(2) by (simp add: segs_ok_def seg_ok_def)

theorem detectPeaks_amplitude_above_threshold_witness:
  "detectPeaks twoHits (1 / 2) =
     Inr [\<lparr>start = 0, end' = double (16 / 200), amplitude = 1\<rparr>,
          \<lparr>start = double (26 / 200), end' = double (36 / 200), amplitude = 1\<rparr>]
   \<and> (1 / 2 :: real) < amplitude \<lparr>start = 0, end' = double (16 / 200), amplitude = 1\<rparr>"
  using detectPeaks_amplitude_above_threshold [OF twoHits_peaks,
          of "\<lparr>start = 0, end' = double (16 / 200), amplitude = 1\<rparr>"] twoHits_peaks
  by simp

end
